theory Spec2Isabelle
  imports Complex_Main "HOL-Library.Multiset"
begin

section \<open>Numeric model\<close>

text \<open>
  The programs \<^verbatim>\<open>scanner_clean.cpp\<close>, \<^verbatim>\<open>generate_weekly_scanners.cpp\<close> and
  \<^verbatim>\<open>simple_heatmap_fixed.cpp\<close> compute on \<^verbatim>\<open>double\<close>, \<^verbatim>\<open>complex<double>\<close> and \<^verbatim>\<open>int\<close>.
  A finite \<^verbatim>\<open>double\<close> is modelled by a \<^typ>\<open>real\<close> and the arithmetic on it is exact:
  rounding and overflow are not modelled. An \<^verbatim>\<open>int\<close> is modelled by an \<^typ>\<open>int\<close>; the
  programs use windows of at most 4000 samples and periods of at most 1000, for which no
  \<^verbatim>\<open>int\<close> expression of the source leaves the 32-bit range, and all operands of the
  integer divisions are non-negative, where the truncating division of C++ is \<open>div\<close>.
  A \<^verbatim>\<open>vector\<close> is a list, read at \<^verbatim>\<open>v[i]\<close> by \<open>v ! nat i\<close>; a read or a write beyond
  the end of a vector is the error \<open>OutOfBounds\<close>.

  The division of the spectrum by its maximum in \<^verbatim>\<open>scanner_clean.cpp\<close> has no guard
  against a zero maximum, and there the program leaves the finite doubles. Its result
  is a \<open>dbl\<close>: a finite value, an infinity or a NaN, compared as IEEE 754 compares them:
  every comparison with a NaN is false. The sign of a zero is not modelled.
\<close>

datatype dbl = Fin real | PInf | NInf | NaN

definition fdiv :: "real \<Rightarrow> real \<Rightarrow> dbl" where
  "fdiv x y =
     (if y \<noteq> 0 then Fin (x / y)
      else if 0 < x then PInf
      else if x < 0 then NInf
      else NaN)"

fun dbl_gt :: "dbl \<Rightarrow> dbl \<Rightarrow> bool" where
  "dbl_gt NaN _ = False"
| "dbl_gt _ NaN = False"
| "dbl_gt (Fin x) (Fin y) = (y < x)"
| "dbl_gt PInf PInf = False"
| "dbl_gt PInf _ = True"
| "dbl_gt _ PInf = False"
| "dbl_gt NInf _ = False"
| "dbl_gt (Fin x) NInf = True"

text \<open>The IEEE comparison \<^verbatim>\<open>>=\<close>, in which the sorted peak list is stated.\<close>

fun dbl_ge :: "dbl \<Rightarrow> dbl \<Rightarrow> bool" where
  "dbl_ge NaN _ = False"
| "dbl_ge _ NaN = False"
| "dbl_ge (Fin x) (Fin y) = (y \<le> x)"
| "dbl_ge PInf _ = True"
| "dbl_ge _ NInf = True"
| "dbl_ge _ _ = False"

datatype error = OutOfBounds

section \<open>The kernel: \<^verbatim>\<open>create_high_q_morlet\<close>\<close>

definition create_high_q_morlet :: "real \<Rightarrow> int \<Rightarrow> complex list" where
  "create_high_q_morlet freq len =
     (let Q = 15 + 50 * freq;
          sigma = Q / (2 * pi * freq);
          wavelet = map (\<lambda>i. let t = real_of_int i - real_of_int len / 2;
                                  envelope = exp (- t * t / (2 * sigma * sigma));
                                  carrier = exp (Complex 0 (2 * pi * freq * t))
                              in complex_of_real envelope * carrier) [0..len - 1];
          norm = sqrt (fold (\<lambda>w norm. norm + cmod w * cmod w) wavelet 0)
      in map (\<lambda>w. w / complex_of_real norm) wavelet)"

section \<open>The power estimator: \<^verbatim>\<open>compute_power\<close>\<close>

text \<open>
  The inner loop of \<^verbatim>\<open>compute_power\<close>: the sum, over the kernel positions \<open>i\<close>, of
  \<^verbatim>\<open>data[idx] * conj(wavelet[i])\<close> at \<^verbatim>\<open>idx = center - wlen/2 + i\<close>, where a position
  whose \<open>idx\<close> is outside the data is passed over.
\<close>

definition window_sum :: "real list \<Rightarrow> complex list \<Rightarrow> int \<Rightarrow> int \<Rightarrow> complex" where
  "window_sum data wavelet wlen center =
     fold (\<lambda>i sum.
             let idx = center - wlen div 2 + i
             in if 0 \<le> idx \<and> idx < int (length data)
                then sum + complex_of_real (data ! nat idx) * cnj (wavelet ! nat i)
                else sum)
          [0..wlen - 1] 0"

definition cycles_of :: "int \<Rightarrow> int \<Rightarrow> int" where
  "cycles_of n wavelength = min 8 (max 4 (n div wavelength))"

definition wlen_of :: "int \<Rightarrow> int \<Rightarrow> int" where
  "wlen_of n wavelength = min n (wavelength * cycles_of n wavelength)"

definition step_of :: "int \<Rightarrow> int" where
  "step_of wavelength = max 1 (wavelength div 8)"

text \<open>
  The scan loop \<^verbatim>\<open>for (center = wlen/2; center <= n - wlen/2; center += step)\<close> with its
  two accumulators. It returns \<^verbatim>\<open>total_power\<close> and \<^verbatim>\<open>count\<close> as they are when the loop
  is left. The source computes \<^verbatim>\<open>step = max(1, wavelength / 8)\<close> once before the loop;
  the loop of the model takes the period and advances by \<open>step_of wavelength\<close>, which
  is at least 1, so that the loop ends.
\<close>

function scan_loop ::
  "real list \<Rightarrow> complex list \<Rightarrow> int \<Rightarrow> int \<Rightarrow> int \<Rightarrow> real \<Rightarrow> int \<Rightarrow> real \<times> int" where
  "scan_loop data wavelet wlen wavelength center total_power cnt =
     (if center \<le> int (length data) - wlen div 2
      then let sum = window_sum data wavelet wlen center
           in scan_loop data wavelet wlen wavelength (center + step_of wavelength)
                (total_power + cmod sum * cmod sum) (cnt + 1)
      else (total_power, cnt))"
  by pat_completeness auto
termination
  by (relation "measure (\<lambda>(data, wavelet, wlen, wavelength, center, total_power, cnt).
                   nat (int (length data) - wlen div 2 + 1 - center))")
     (auto simp: step_of_def)

declare scan_loop.simps [simp del]

text \<open>
  \<^verbatim>\<open>compute_power\<close>, for a period \<open>wavelength \<ge> 1\<close> (the callers pass 30 to 1000 and
  100 to 800; at 0 the source divides an \<^verbatim>\<open>int\<close> by zero).
\<close>

definition compute_power :: "real list \<Rightarrow> int \<Rightarrow> real" where
  "compute_power data wavelength =
     (let n = int (length data)
      in if wavelength > n div 2 then 0
         else let freq = 1 / real_of_int wavelength;
                  wlen = wlen_of n wavelength;
                  wavelet = create_high_q_morlet freq wlen;
                  (total_power, cnt) =
                     scan_loop data wavelet wlen wavelength (wlen div 2) 0 0
              in if cnt > 0 then sqrt (total_power / real_of_int cnt) else 0)"

section \<open>Detrending\<close>

text \<open>
  The three \<^verbatim>\<open>main\<close> functions fit a least-squares line to the logarithms of the prices
  of the window and subtract it. \<open>ws\<close> is the window, the slice
  \<^verbatim>\<open>prices[start_idx .. start_idx + window)\<close>. The first loop accumulates four sums, the
  second subtracts the line. For a window of fewer than two prices the source divides
  zero by zero; the model is meant for windows of at least two positive prices.

  The source accumulates the sums, divides and subtracts in \<^verbatim>\<open>double\<close>, and takes the
  logarithm of the C library; the model computes the same formulas in exact real
  arithmetic. The two agree where no operation of the source rounds, as on a window
  of prices 1.0, whose logarithm is exactly 0. Elsewhere the residuals of the program
  differ from those of the model by rounding errors, and a statement that residuals
  of the model are exactly equal to some value says of the program only that they are
  close to it.
\<close>

definition regression_sums :: "real list \<Rightarrow> real \<times> real \<times> real \<times> real" where
  "regression_sums ws =
     fold (\<lambda>i (sum_x, sum_y, sum_xx, sum_xy).
             let y = ln (ws ! i)
             in (sum_x + real i, sum_y + y, sum_xx + real (i * i), sum_xy + real i * y))
          [0..<length ws] (0, 0, 0, 0)"

definition detrend :: "real list \<Rightarrow> real list" where
  "detrend ws =
     (let window = real (length ws);
          (sum_x, sum_y, sum_xx, sum_xy) = regression_sums ws;
          slope = (window * sum_xy - sum_x * sum_y) / (window * sum_xx - sum_x * sum_x);
          intercept = (sum_y - slope * sum_x) / window
      in map (\<lambda>i. ln (ws ! i) - (intercept + slope * real i)) [0..<length ws])"

section \<open>The stages of the post-processor\<close>

subsection \<open>\<^verbatim>\<open>median_filter\<close> (\<^verbatim>\<open>scanner_clean.cpp\<close>, \<^verbatim>\<open>simple_heatmap_fixed.cpp\<close>)\<close>

definition median_filter :: "real list \<Rightarrow> int \<Rightarrow> real list" where
  "median_filter spectrum window =
     (let n = int (length spectrum)
      in map (\<lambda>i. let values =
                        fold (\<lambda>j values.
                                let idx = i + j
                                in if 0 \<le> idx \<and> idx < n
                                   then values @ [spectrum ! nat idx]
                                   else values)
                             [- window..window] []
                    in sort values ! (length values div 2))
             [0..n - 1])"

subsection \<open>\<^verbatim>\<open>smooth_spectrum\<close>\<close>

definition gauss_weight :: "int \<Rightarrow> int \<Rightarrow> real" where
  "gauss_weight window j =
     (let sigma = real_of_int window / 3
      in exp (- 0.5 * real_of_int (j * j) / (sigma * sigma)))"

definition smooth_spectrum :: "real list \<Rightarrow> int \<Rightarrow> real list" where
  "smooth_spectrum spectrum window =
     (let n = int (length spectrum)
      in map (\<lambda>i. let (sum, weight) =
                        fold (\<lambda>j (sum, weight).
                                let idx = i + j
                                in if 0 \<le> idx \<and> idx < n
                                   then let w = gauss_weight window j
                                        in (sum + spectrum ! nat idx * w, weight + w)
                                   else (sum, weight))
                             [- window..window] (0, 0)
                    in sum / weight)
             [0..n - 1])"

subsection \<open>\<^verbatim>\<open>enhance_peaks\<close>\<close>

definition enhance_peaks :: "real list \<Rightarrow> real \<Rightarrow> real list" where
  "enhance_peaks spectrum factor =
     (let n = real (length spectrum);
          mean = fold (\<lambda>s mean. mean + s) spectrum 0 / n
      in map (\<lambda>s. if s > mean
                   then let excess = s - mean in mean + excess * factor
                   else s)
             spectrum)"

subsection \<open>Adaptive smoothing (\<^verbatim>\<open>main\<close> of \<^verbatim>\<open>scanner_clean.cpp\<close> and \<^verbatim>\<open>simple_heatmap_fixed.cpp\<close>)\<close>

text \<open>
  One pass of the loop \<^verbatim>\<open>for (size_t i = 5; i < spectrum.size() - 5; i++)\<close>. The bound is
  unsigned: on a spectrum of fewer than 5 entries it wraps around and the loop reads
  beyond the vector, which is the error of the model. The pass reads \<^verbatim>\<open>spectrum\<close> and
  writes the copy \<^verbatim>\<open>adaptive_smooth\<close>.
\<close>

definition threshold :: real where
  "threshold = 0.3"

definition local_average :: "real list \<Rightarrow> nat \<Rightarrow> real" where
  "local_average spectrum i =
     (let (sum, weight) =
             fold (\<lambda>j (sum, weight).
                     let w = exp (- 0.5 * real_of_int j * real_of_int j / 4.0)
                     in (sum + spectrum ! nat (int i + j) * w, weight + w))
                  [- 5..5] (0, 0)
      in sum / weight)"

definition adaptive_pass :: "real list \<Rightarrow> error + real list" where
  "adaptive_pass spectrum =
     (if length spectrum < 5 then Inl OutOfBounds
      else Inr (fold (\<lambda>i adaptive_smooth.
                        if spectrum ! i < threshold
                        then adaptive_smooth[i := local_average spectrum i]
                        else adaptive_smooth)
                     [5..<length spectrum - 5] spectrum))"

definition adaptive_smoothing :: "real list \<Rightarrow> error + real list" where
  "adaptive_smoothing spectrum =
     (case adaptive_pass spectrum of
        Inl e \<Rightarrow> Inl e
      | Inr pass0 \<Rightarrow> adaptive_pass pass0)"

subsection \<open>Normalization\<close>

text \<open>
  \<^verbatim>\<open>*max_element(v.begin(), v.end())\<close>: the greatest entry; on an empty vector the
  source dereferences the end iterator.
\<close>

definition max_element :: "real list \<Rightarrow> error + real" where
  "max_element v =
     (case v of
        [] \<Rightarrow> Inl OutOfBounds
      | x # xs \<Rightarrow> Inr (fold (\<lambda>s largest. if largest < s then s else largest) xs x))"

text \<open>
  \<^verbatim>\<open>main\<close> of \<^verbatim>\<open>scanner_clean.cpp\<close> divides every entry by the maximum, whatever the
  maximum is.
\<close>

definition normalize_unguarded :: "real list \<Rightarrow> error + dbl list" where
  "normalize_unguarded spectrum =
     (case max_element spectrum of
        Inl e \<Rightarrow> Inl e
      | Inr max_val \<Rightarrow> Inr (map (\<lambda>s. fdiv s max_val) spectrum))"

text \<open>
  \<^verbatim>\<open>process_spectrum\<close> of \<^verbatim>\<open>generate_weekly_scanners.cpp\<close> and \<^verbatim>\<open>main\<close> of
  \<^verbatim>\<open>simple_heatmap_fixed.cpp\<close> divide under the guard \<^verbatim>\<open>if (max_val > 0)\<close>.
\<close>

definition normalize_guarded :: "real list \<Rightarrow> error + real list" where
  "normalize_guarded spectrum =
     (case max_element spectrum of
        Inl e \<Rightarrow> Inl e
      | Inr max_val \<Rightarrow>
          Inr (if max_val > 0 then map (\<lambda>s. s / max_val) spectrum else spectrum))"

subsection \<open>The post-processor of \<^verbatim>\<open>scanner_clean.cpp\<close>\<close>

definition post_process :: "real list \<Rightarrow> error + dbl list" where
  "post_process spectrum =
     (let spectrum1 = median_filter spectrum 3;
          spectrum2 = smooth_spectrum spectrum1 10;
          spectrum3 = enhance_peaks spectrum2 2.0;
          spectrum4 = smooth_spectrum spectrum3 5
      in case adaptive_smoothing spectrum4 of
           Inl e \<Rightarrow> Inl e
         | Inr spectrum5 \<Rightarrow> normalize_unguarded spectrum5)"

subsection \<open>The post-processor of \<^verbatim>\<open>simple_heatmap_fixed.cpp\<close>\<close>

definition post_process_heatmap :: "real list \<Rightarrow> error + real list" where
  "post_process_heatmap spectrum =
     (let spectrum1 = median_filter spectrum 3;
          spectrum2 = smooth_spectrum spectrum1 10;
          spectrum3 = enhance_peaks spectrum2 2.0;
          spectrum4 = smooth_spectrum spectrum3 5
      in case adaptive_smoothing spectrum4 of
           Inl e \<Rightarrow> Inl e
         | Inr spectrum5 \<Rightarrow> normalize_guarded spectrum5)"

subsection \<open>\<^verbatim>\<open>process_spectrum\<close> (\<^verbatim>\<open>generate_weekly_scanners.cpp\<close>)\<close>

text \<open>
  The median filter of \<^verbatim>\<open>process_spectrum\<close> starts from a copy of the spectrum and
  rewrites the entries \<^verbatim>\<open>window \<le> i < spectrum.size() - window\<close> only, each from its
  seven neighbours, with no test of the index. The bound is unsigned and wraps around
  on a spectrum of fewer than 3 entries.
\<close>

definition interior_median :: "real list \<Rightarrow> error + real list" where
  "interior_median spectrum =
     (let window = 3
      in if int (length spectrum) < window then Inl OutOfBounds
         else Inr (fold (\<lambda>i filtered.
                           let vals = map (\<lambda>j. spectrum ! nat (int i + j)) [- window..window]
                           in filtered[i := sort vals ! (length vals div 2)])
                        [nat window..<length spectrum - nat window] spectrum))"

text \<open>
  The smoothing and enhancement loops of \<^verbatim>\<open>process_spectrum\<close> are the loops of
  \<^verbatim>\<open>smooth_spectrum\<close> and \<^verbatim>\<open>enhance_peaks\<close>, written in line.
\<close>

definition process_spectrum :: "real list \<Rightarrow> error + real list" where
  "process_spectrum spectrum =
     (case interior_median spectrum of
        Inl e \<Rightarrow> Inl e
      | Inr filtered \<Rightarrow>
          (let smoothed = smooth_spectrum filtered 10;
               enhanced = enhance_peaks smoothed 2.0;
               final = smooth_spectrum enhanced 5
           in normalize_guarded final))"

section \<open>The peak detector\<close>

text \<open>
  The loop \<^verbatim>\<open>for (size_t i = 10; i < spectrum.size() - 10; i++)\<close> of \<^verbatim>\<open>main\<close>; its
  unsigned bound wraps around on a spectrum of fewer than 10 entries. \<^verbatim>\<open>wavelengths\<close>
  is filled together with the spectrum and has its length. The accepted peaks are
  appended in the order of the scan.
\<close>

definition is_peak :: "dbl list \<Rightarrow> nat \<Rightarrow> bool" where
  "is_peak spectrum i =
     list_all (\<lambda>j. \<not> (j \<noteq> 0 \<and> dbl_gt (spectrum ! nat (int i + j)) (spectrum ! i))) [- 10..10]"

definition find_peaks :: "int list \<Rightarrow> dbl list \<Rightarrow> error + (int \<times> dbl) list" where
  "find_peaks wavelengths spectrum =
     (if length spectrum < 10 then Inl OutOfBounds
      else Inr (fold (\<lambda>i peaks.
                        if is_peak spectrum i \<and> dbl_gt (spectrum ! i) (Fin 0.05)
                        then peaks @ [(wavelengths ! i, spectrum ! i)]
                        else peaks)
                     [10..<length spectrum - 10] []))"

text \<open>
  \<^verbatim>\<open>std::sort\<close> with the comparison \<^verbatim>\<open>a.second > b.second\<close>. The sort is library code;
  what the C++ standard promises of it is that the result is a rearrangement of the
  input in which no element is followed by one that the comparison puts before it.
  It does not promise an order among elements that compare equal.
\<close>

definition peak_before :: "int \<times> dbl \<Rightarrow> int \<times> dbl \<Rightarrow> bool" where
  "peak_before a b = dbl_gt (snd a) (snd b)"

definition std_sort_result :: "('a \<Rightarrow> 'a \<Rightarrow> bool) \<Rightarrow> 'a list \<Rightarrow> 'a list \<Rightarrow> bool" where
  "std_sort_result cmp v sorted_v \<longleftrightarrow>
     mset sorted_v = mset v \<and> sorted_wrt (\<lambda>a b. \<not> cmp b a) sorted_v"

section \<open>\<^verbatim>\<open>main\<close> of \<^verbatim>\<open>scanner_clean.cpp\<close>\<close>

text \<open>
  The program takes the last \<^verbatim>\<open>min(2000, prices.size())\<close> prices, detrends them, scans
  the periods 30 to 1000, post-processes the spectrum and collects the peaks, which
  it then hands to \<^verbatim>\<open>std::sort\<close>.
\<close>

definition scanner_clean_spectrum :: "real list \<Rightarrow> real list" where
  "scanner_clean_spectrum prices =
     (let window = min 2000 (length prices);
          data = detrend (drop (length prices - window) prices)
      in map (compute_power data) [30..1000])"

definition scanner_clean :: "real list \<Rightarrow> error + dbl list \<times> (int \<times> dbl) list" where
  "scanner_clean prices =
     (let wavelengths = [30..1000]
      in case post_process (scanner_clean_spectrum prices) of
           Inl e \<Rightarrow> Inl e
         | Inr spectrum \<Rightarrow>
             (case find_peaks wavelengths spectrum of
                Inl e \<Rightarrow> Inl e
              | Inr peaks \<Rightarrow> Inr (spectrum, peaks)))"

section \<open>The rolling-window drivers\<close>

text \<open>
  Both drivers run \<^verbatim>\<open>for (int week = 0; week <= 260; week++)\<close> over windows of 4000
  prices, the window of week \<open>k\<close> ending \<open>5 * k\<close> prices before the end of the series.
  The number of weeks and the window size are constants of the source; the loops are
  modelled with the two as parameters and the programs instantiate them.
\<close>

definition window_slice :: "real list \<Rightarrow> int \<Rightarrow> int \<Rightarrow> real list" where
  "window_slice prices start_idx window_size =
     take (nat window_size) (drop (nat start_idx) prices)"

subsection \<open>\<^verbatim>\<open>generate_weekly_scanners.cpp\<close>\<close>

definition analyze_week :: "real list \<Rightarrow> error + (int \<times> dbl) list" where
  "analyze_week ws =
     (let data = detrend ws;
          spectrum = map (compute_power data) [100..800];
          wavelengths = [100..800]
      in case process_spectrum spectrum of
           Inl e \<Rightarrow> Inl e
         | Inr processed \<Rightarrow> find_peaks wavelengths (map Fin processed))"

text \<open>A week without enough history is passed over by \<^verbatim>\<open>continue\<close>: nothing is pushed.\<close>

definition weekly_loop :: "int \<Rightarrow> int \<Rightarrow> real list \<Rightarrow> (error + (int \<times> dbl) list) list" where
  "weekly_loop total_weeks window_size prices =
     fold (\<lambda>week all_peaks.
             let rollback = week * 5;
                 end_idx = int (length prices) - rollback;
                 start_idx = end_idx - window_size
             in if start_idx < 0 then all_peaks
                else all_peaks @ [analyze_week (window_slice prices start_idx window_size)])
          [0..total_weeks] []"

definition generate_weekly_scanners :: "real list \<Rightarrow> (error + (int \<times> dbl) list) list" where
  "generate_weekly_scanners prices = weekly_loop 260 4000 prices"

subsection \<open>\<^verbatim>\<open>simple_heatmap_fixed.cpp\<close>\<close>

definition analyze_heatmap_week :: "real list \<Rightarrow> error + real list" where
  "analyze_heatmap_week ws =
     (let data = detrend ws;
          spectrum = map (compute_power data) [100..800]
      in post_process_heatmap spectrum)"

text \<open>
  A week without enough history pushes \<^verbatim>\<open>vector<double>(701, 0)\<close> before \<^verbatim>\<open>continue\<close>:
  the heat map has a column for every week.
\<close>

definition heatmap_loop :: "int \<Rightarrow> int \<Rightarrow> real list \<Rightarrow> (error + real list) list" where
  "heatmap_loop total_weeks window_size prices =
     fold (\<lambda>week all_spectra.
             let rollback = week * 5;
                 end_idx = int (length prices) - rollback;
                 start_idx = end_idx - window_size
             in if start_idx < 0 then all_spectra @ [Inr (replicate 701 0)]
                else all_spectra @ [analyze_heatmap_week (window_slice prices start_idx window_size)])
          [0..total_weeks] []"

definition simple_heatmap_fixed :: "real list \<Rightarrow> (error + real list) list" where
  "simple_heatmap_fixed prices = heatmap_loop 260 4000 prices"

section \<open>The specification's wording of the power estimator and of the median\<close>

text \<open>
  The power estimator as the specification describes it: 0 when \<open>P > N / 2\<close>; otherwise
  a kernel of length \<open>L = min N (P * cycles)\<close> with \<open>cycles = clamp (N / P) 4 8\<close>, the
  centres \<open>L / 2, L / 2 + step, \<dots>\<close> up to \<open>N - L / 2\<close> with \<open>step = max 1 (P / 8)\<close>, at
  each centre the inner product of the slice of the data of width \<open>L\<close> that starts at
  \<open>centre - L / 2\<close> with the conjugated kernel, and the root of the mean of the squared
  magnitudes.
\<close>

definition spec_centers :: "int \<Rightarrow> int \<Rightarrow> int \<Rightarrow> int list" where
  "spec_centers N L step =
     map (\<lambda>k. L div 2 + k * step) [0..(N - L div 2 - L div 2) div step]"

text \<open>The centres from \<open>c\<close> to \<open>hi\<close> in steps of \<open>s\<close>, for the invariant of the scan loop.\<close>

definition centers_from :: "int \<Rightarrow> int \<Rightarrow> int \<Rightarrow> int list" where
  "centers_from c hi s = map (\<lambda>k. c + k * s) [0..(hi - c) div s]"

definition spec_inner :: "real list \<Rightarrow> complex list \<Rightarrow> int \<Rightarrow> int \<Rightarrow> complex" where
  "spec_inner data kern L c =
     (\<Sum>(d, k) \<leftarrow> zip (take (nat L) (drop (nat (c - L div 2)) data)) kern.
         complex_of_real d * cnj k)"

definition spec_power :: "real list \<Rightarrow> int \<Rightarrow> real" where
  "spec_power data P =
     (let N = int (length data)
      in if real_of_int P > real_of_int N / 2 then 0
         else let cycles = max 4 (min 8 (N div P));
                  L = min N (P * cycles);
                  step = max 1 (P div 8);
                  kern = create_high_q_morlet (1 / real_of_int P) L;
                  centers = spec_centers N L step
              in sqrt ((\<Sum>c \<leftarrow> centers. (cmod (spec_inner data kern L c))\<^sup>2)
                       / real (length centers)))"

text \<open>
  The in-bounds values among entry \<open>i\<close> and its \<open>w\<close> neighbours on each side, and the
  median the programs take of them: the entry at position \<open>\<lfloor>k / 2\<rfloor>\<close> of the \<open>k\<close> sorted
  values, the upper of the two middle ones when \<open>k\<close> is even.
\<close>

definition in_bounds_window :: "real list \<Rightarrow> nat \<Rightarrow> nat \<Rightarrow> real list" where
  "in_bounds_window spectrum i w = drop (i - w) (take (i + w + 1) spectrum)"

definition upper_median :: "real list \<Rightarrow> real" where
  "upper_median values = sort values ! (length values div 2)"

text \<open>The order that a stable sort would give: peaks of equal power in ascending period.\<close>

definition ties_in_scan_order :: "(int \<times> dbl) list \<Rightarrow> bool" where
  "ties_in_scan_order peaks =
     sorted_wrt (\<lambda>a b. snd a = snd b \<longrightarrow> fst a < fst b) peaks"

section \<open>Loops as sums and as pointwise updates\<close>

lemma fold_two_sums:
  "fold (\<lambda>j (a, b). (a + f j, b + g j)) xs (a0, b0 :: real) =
     (a0 + sum_list (map f xs), b0 + sum_list (map g xs))"
  by (induction xs arbitrary: a0 b0) (simp_all add: add.assoc)

lemma length_fold_update:
  "length (fold (\<lambda>i a. if P i then a[i := g i] else a) xs acc) = length acc"
  by (induction xs arbitrary: acc) simp_all

lemma nth_update_any: "k < length l \<Longrightarrow> l[i := x] ! k = (if i = k then x else l ! k)"
  by (cases "i = k") auto

lemma nth_fold_update:
  "k < length acc \<Longrightarrow>
   fold (\<lambda>i a. if P i then a[i := g i] else a) xs acc ! k =
     (if k \<in> set xs \<and> P k then g k else acc ! k)"
proof (induction xs arbitrary: acc)
  case Nil
  then show ?case by simp
next
  case (Cons x xs)
  then show ?case by (auto simp: nth_update_any)
qed

lemma fold_cond_append:
  "fold (\<lambda>j vs. if C j then vs @ [f j] else vs) xs a = a @ map f (filter C xs)"
  by (induction xs arbitrary: a) simp_all

lemma filter_upto_range:
  "filter (\<lambda>j. a \<le> j \<and> j \<le> b) [l..u] = [max l a..min u b]"
  by (rule sorted_distinct_set_unique) (auto intro: sorted_wrt_filter)

lemma nth_fold_update_all:
  "k < length acc \<Longrightarrow>
   fold (\<lambda>i a. a[i := g i]) xs acc ! k = (if k \<in> set xs then g k else acc ! k)"
  using nth_fold_update [of k acc "\<lambda>_. True" g xs] by simp

lemma length_fold_update_all:
  "length (fold (\<lambda>i a. a[i := g i]) xs acc) = length acc"
  using length_fold_update [of "\<lambda>_. True" g xs acc] by simp

section \<open>The scan loop runs at least once\<close>

lemma wlen_of_le: "wlen_of n wavelength \<le> n"
  by (simp add: wlen_of_def)

lemma first_center_in_range: "wlen \<le> n \<Longrightarrow> wlen div 2 \<le> n - wlen div (2::int)"
  by linarith

lemma scan_loop_count_mono:
  "cnt \<le> snd (scan_loop data wavelet wlen wavelength center total_power cnt)"
proof (induction data wavelet wlen wavelength center total_power cnt rule: scan_loop.induct)
  case (1 data wavelet wlen wavelength center total_power cnt)
  show ?case
  proof (cases "center \<le> int (length data) - wlen div 2")
    case True
    from "1.IH" [OF True refl]
    have "cnt + 1 \<le> snd (scan_loop data wavelet wlen wavelength (center + step_of wavelength)
             (total_power + cmod (window_sum data wavelet wlen center)
                * cmod (window_sum data wavelet wlen center)) (cnt + 1))" .
    with True show ?thesis
      by (subst scan_loop.simps) (simp add: Let_def)
  next
    case False
    then show ?thesis by (subst scan_loop.simps) simp
  qed
qed

lemma scan_loop_enters:
  assumes "center \<le> int (length data) - wlen div 2"
  shows "cnt + 1 \<le> snd (scan_loop data wavelet wlen wavelength center total_power cnt)"
proof -
  have "scan_loop data wavelet wlen wavelength center total_power cnt =
        scan_loop data wavelet wlen wavelength (center + step_of wavelength)
          (total_power + cmod (window_sum data wavelet wlen center)
             * cmod (window_sum data wavelet wlen center)) (cnt + 1)"
    using assms by (subst scan_loop.simps) (simp add: Let_def)
  then show ?thesis
    using scan_loop_count_mono by metis
qed

text \<open>
  Claim C10. For a window of length \<open>N \<ge> 2\<close> and a period \<open>P\<close> with \<open>1 \<le> P \<le> N / 2\<close>,
  the kernel length \<open>L = min N (P * clamp (N / P) 4 8)\<close> is at most \<open>N\<close>, the first centre
  \<open>L / 2\<close> passes the loop test \<open>center \<le> N - L / 2\<close>, the count of scanned centres is at
  least 1 when the loop is left, and \<^verbatim>\<open>compute_power\<close> returns the root of the mean power,
  never the 0 of the branch after the loop.
\<close>

theorem scan_count_positive:
  assumes "2 \<le> length data" and "1 \<le> P" and "P \<le> int (length data) div 2"
  shows "wlen_of (int (length data)) P \<le> int (length data)
       \<and> wlen_of (int (length data)) P div 2
            \<le> int (length data) - wlen_of (int (length data)) P div 2
       \<and> 1 \<le> snd (scan_loop data (create_high_q_morlet (1 / real_of_int P) (wlen_of (int (length data)) P))
                    (wlen_of (int (length data)) P) P (wlen_of (int (length data)) P div 2) 0 0)
       \<and> compute_power data P =
           sqrt (fst (scan_loop data (create_high_q_morlet (1 / real_of_int P) (wlen_of (int (length data)) P))
                    (wlen_of (int (length data)) P) P (wlen_of (int (length data)) P div 2) 0 0)
                 / real_of_int (snd (scan_loop data (create_high_q_morlet (1 / real_of_int P) (wlen_of (int (length data)) P))
                    (wlen_of (int (length data)) P) P (wlen_of (int (length data)) P div 2) 0 0)))"
proof -
  let ?n = "int (length data)"
  let ?L = "wlen_of ?n P"
  let ?r = "scan_loop data (create_high_q_morlet (1 / real_of_int P) ?L) ?L P (?L div 2) 0 0"
  have le: "?L \<le> ?n" by (rule wlen_of_le)
  have first: "?L div 2 \<le> ?n - ?L div 2" using le by (rule first_center_in_range)
  have cnt: "1 \<le> snd ?r" using scan_loop_enters [OF first, where cnt = 0 and total_power = 0 and wavelength = P]
    by simp
  have "compute_power data P = sqrt (fst ?r / real_of_int (snd ?r))"
    using assms(3) cnt by (simp add: compute_power_def Let_def case_prod_beta)
  with le first cnt show ?thesis by blast
qed

theorem scan_count_positive_witness:
  "2 \<le> length [0::real, 0] \<and> (1::int) \<le> 1 \<and> 1 \<le> int (length [0::real, 0]) div 2
   \<and> 1 \<le> snd (scan_loop [0, 0] (create_high_q_morlet (1 / real_of_int 1) (wlen_of 2 1))
                 (wlen_of 2 1) 1 (wlen_of 2 1 div 2) 0 0)"
  using scan_count_positive [of "[0, 0]" 1] by simp

section \<open>The power estimator computes the root mean square power\<close>

lemma fold_cond_add:
  "fold (\<lambda>i (s::'a::comm_monoid_add). if P i then s + f i else s) xs a =
     a + sum_list (map (\<lambda>i. if P i then f i else 0) xs)"
  by (induction xs arbitrary: a) (simp_all add: add.assoc)

lemma upto_as_nat: "[0..m - 1] = map int [0..<nat m]"
  by (rule nth_equalityI) auto

lemma length_morlet: "length (create_high_q_morlet freq len) = nat len"
  by (simp add: create_high_q_morlet_def Let_def)

lemma sum_list_zip_nth:
  "sum_list (map f (zip xs ys)) = (\<Sum>i = 0..<min (length xs) (length ys). f (xs ! i, ys ! i))"
proof -
  have "zip xs ys = map (\<lambda>i. (xs ! i, ys ! i)) [0..<min (length xs) (length ys)]"
    by (rule nth_equalityI) auto
  then have "sum_list (map f (zip xs ys))
           = sum_list (map (\<lambda>i. f (xs ! i, ys ! i)) [0..<min (length xs) (length ys)])"
    by (simp add: comp_def)
  then show ?thesis
    by (simp add: interv_sum_list_conv_sum_set_nat)
qed

lemma window_sum_eq:
  assumes len: "length wavelet = nat wlen" and c: "wlen div 2 \<le> center"
  shows "window_sum data wavelet wlen center = spec_inner data wavelet wlen center"
proof -
  define off where "off = nat (center - wlen div 2)"
  define g where "g i = complex_of_real (data ! (off + i)) * cnj (wavelet ! i)" for i
  have off: "center - wlen div 2 = int off" using c by (simp add: off_def)
  have "window_sum data wavelet wlen center
      = sum_list (map (\<lambda>i. if off + i < length data then g i else 0) [0..<nat wlen])"
  proof -
    have a: "int off + int x < int (length data) \<longleftrightarrow> off + x < length data" for x
      by linarith
    have b: "nat (int off + int x) = off + x" for x
      by linarith
    show ?thesis
      by (simp add: window_sum_def Let_def fold_cond_add upto_as_nat comp_def off g_def a b cong: if_cong)
  qed
  also have "\<dots> = (\<Sum>i = 0..<nat wlen. if off + i < length data then g i else 0)"
    by (simp add: interv_sum_list_conv_sum_set_nat)
  also have "\<dots> = (\<Sum>i \<in> {0..<nat wlen} \<inter> {i. off + i < length data}. g i)"
    by (simp add: sum.inter_restrict)
  also have "{0..<nat wlen} \<inter> {i. off + i < length data}
           = {0..<min (min (nat wlen) (length data - off)) (nat wlen)}"
    by auto
  also have "(\<Sum>i = 0..<min (min (nat wlen) (length data - off)) (nat wlen). g i)
           = spec_inner data wavelet wlen center"
    unfolding spec_inner_def sum_list_zip_nth
    by (rule sum.cong) (auto simp: len g_def off_def)
  finally show ?thesis .
qed

lemma centers_from_step:
  assumes "1 \<le> s" and "c \<le> hi"
  shows "centers_from c hi s = c # centers_from (c + s) hi s"
proof -
  have m: "0 \<le> (hi - c) div s" using assms by (simp add: pos_imp_zdiv_nonneg_iff)
  have d: "(hi - (c + s)) div s = (hi - c) div s - 1"
    using assms div_add_self2 [of s "hi - (c + s)"] by (simp add: algebra_simps)
  have "[0..(hi - c) div s] = 0 # map (\<lambda>k. k + 1) [0..(hi - c) div s - 1]"
    using m by (subst upto_rec1) (auto intro!: nth_equalityI)
  then show ?thesis
    by (simp add: centers_from_def d comp_def algebra_simps)
qed

lemma centers_from_done:
  assumes "1 \<le> s" and "hi < c"
  shows "centers_from c hi s = []"
  using assms by (simp add: centers_from_def div_neg_pos_less0)

lemma scan_loop_closed:
  "scan_loop data wavelet wlen P c tp cnt =
     (tp + (\<Sum>c' \<leftarrow> centers_from c (int (length data) - wlen div 2) (step_of P).
               (cmod (window_sum data wavelet wlen c'))\<^sup>2),
      cnt + int (length (centers_from c (int (length data) - wlen div 2) (step_of P))))"
proof (induction data wavelet wlen P c tp cnt rule: scan_loop.induct)
  case (1 data wavelet wlen P c tp cnt)
  have s: "1 \<le> step_of P" by (simp add: step_of_def)
  show ?case
  proof (cases "c \<le> int (length data) - wlen div 2")
    case True
    show ?thesis
      by (subst scan_loop.simps)
         (simp add: True Let_def "1.IH" [OF True refl] centers_from_step [OF s True]
            power2_eq_square)
  next
    case False
    then have "int (length data) - wlen div 2 < c" by simp
    from centers_from_done [OF s this] False show ?thesis
      by (subst scan_loop.simps) simp
  qed
qed

lemma centers_from_ge: "1 \<le> s \<Longrightarrow> c' \<in> set (centers_from c hi s) \<Longrightarrow> c \<le> c'"
  by (auto simp: centers_from_def)

lemma half_test: "real_of_int P > real_of_int N / 2 \<longleftrightarrow> P > N div 2"
proof -
  have "real_of_int P > real_of_int N / 2 \<longleftrightarrow> real_of_int (2 * P) > real_of_int N"
    by (simp add: field_simps)
  also have "\<dots> \<longleftrightarrow> 2 * P > N" by (simp only: of_int_less_iff)
  also have "\<dots> \<longleftrightarrow> P > N div 2" by linarith
  finally show ?thesis .
qed

text \<open>
  Claim C1. For every window of length \<open>N\<close> and every candidate period \<open>P\<close> (a positive
  integer), \<^verbatim>\<open>compute_power\<close> returns what the specification describes: 0 if
  \<open>P > N / 2\<close>, and otherwise the root of the mean, over the centres from \<open>L / 2\<close> to
  \<open>N - L / 2\<close> in steps of \<open>max 1 (P / 8)\<close>, of the squared magnitude of the inner product
  of the data with the conjugated kernel of length \<open>L = min N (P * clamp (N / P) 4 8)\<close>.
\<close>

theorem compute_power_refines:
  assumes "1 \<le> P"
  shows "compute_power data P = spec_power data P"
proof (cases "P > int (length data) div 2")
  case True
  then show ?thesis
    unfolding spec_power_def half_test by (simp add: compute_power_def)
next
  case False
  let ?n = "int (length data)"
  let ?L = "wlen_of ?n P"
  let ?k = "create_high_q_morlet (1 / real_of_int P) ?L"
  let ?cs = "centers_from (?L div 2) (?n - ?L div 2) (step_of P)"
  have s: "1 \<le> step_of P" by (simp add: step_of_def)
  have L: "?L = min ?n (P * max 4 (min 8 (?n div P)))"
    by (simp add: wlen_of_def cycles_of_def min_def max_def)
  have cs: "?cs = spec_centers ?n ?L (max 1 (P div 8))"
    by (simp add: centers_from_def spec_centers_def step_of_def algebra_simps)
  have inner: "(\<Sum>c' \<leftarrow> ?cs. (cmod (window_sum data ?k ?L c'))\<^sup>2)
             = (\<Sum>c' \<leftarrow> ?cs. (cmod (spec_inner data ?k ?L c'))\<^sup>2)"
    by (rule arg_cong [where f = sum_list], rule map_cong [OF refl])
       (simp add: window_sum_eq [OF length_morlet centers_from_ge [OF s]])
  have "compute_power data P =
          (if 0 < length ?cs
           then sqrt ((\<Sum>c' \<leftarrow> ?cs. (cmod (spec_inner data ?k ?L c'))\<^sup>2) / real (length ?cs))
           else 0)"
    using False by (simp add: compute_power_def Let_def scan_loop_closed inner)
  also have "\<dots> = sqrt ((\<Sum>c' \<leftarrow> ?cs. (cmod (spec_inner data ?k ?L c'))\<^sup>2) / real (length ?cs))"
    by simp
  also have "\<dots> = spec_power data P"
    using False unfolding spec_power_def half_test
    by (simp add: Let_def L [symmetric] cs [symmetric])
  finally show ?thesis .
qed

theorem compute_power_refines_witness:
  "(1::int) \<le> 1 \<and> compute_power [0, 0] 1 = spec_power [0, 0] 1"
  using compute_power_refines [of 1 "[0, 0]"] by simp

section \<open>The normal equations of the regression, in exact arithmetic\<close>

lemma fold_four_sums:
  "fold (\<lambda>i (a, b, c, d). (a + f i, b + g i, c + h i, d + k i)) xs (a0, b0, c0, d0 :: real) =
     (a0 + sum_list (map f xs), b0 + sum_list (map g xs),
      c0 + sum_list (map h xs), d0 + sum_list (map k xs))"
  by (induction xs arbitrary: a0 b0 c0 d0) (simp_all add: add.assoc)

lemma regression_sums_eq:
  "regression_sums ws =
     (\<Sum>i = 0..<length ws. real i, \<Sum>i = 0..<length ws. ln (ws ! i),
      \<Sum>i = 0..<length ws. real (i * i), \<Sum>i = 0..<length ws. real i * ln (ws ! i))"
  by (simp add: regression_sums_def Let_def fold_four_sums interv_sum_list_conv_sum_set_nat)

lemma sum_index: "(\<Sum>i = 0..<n. real i) = real n * (real n - 1) / 2"
  by (induction n) (simp_all add: field_simps)

lemma sum_index_sq: "(\<Sum>i = 0..<n. real (i * i)) = (real n - 1) * real n * (2 * real n - 1) / 6"
  by (induction n) (simp_all add: field_simps)

lemma regression_denominator:
  assumes "1 < n"
  shows "0 < real n * (\<Sum>i = 0..<n. real (i * i)) - (\<Sum>i = 0..<n. real i) * (\<Sum>i = 0..<n. real i)"
proof -
  have "real n * (\<Sum>i = 0..<n. real (i * i)) - (\<Sum>i = 0..<n. real i) * (\<Sum>i = 0..<n. real i)
      = real n * real n * (real n - 1) * (real n + 1) / 12"
    unfolding sum_index sum_index_sq by (simp add: field_simps)
  moreover have "0 < real n * real n * (real n - 1) * (real n + 1) / 12"
    using assms by simp
  ultimately show ?thesis by simp
qed

text \<open>
  Claim C8 speaks of the residuals that the programs compute, and says that they
  satisfy the normal equations exactly. The programs compute them in \<^verbatim>\<open>double\<close>, and
  what rounding leaves of the two sums (small, not zero, on windows of ordinary
  prices, and depending on the C library's logarithm) is outside
  this model; the claim is not stated here. The lemma below is about the formulas
  only: evaluated in exact arithmetic on a window of more than one positive price,
  they leave residuals that sum to zero, whose sum weighted by the index is zero, and
  whose covariance with the index is zero. It is used for no claim.
\<close>

lemma exact_regression_residuals:
  assumes "1 < length ws" and "\<forall>p \<in> set ws. 0 < p"
  shows "length (detrend ws) = length ws
       \<and> (\<Sum>i = 0..<length ws. detrend ws ! i) = 0
       \<and> (\<Sum>i = 0..<length ws. real i * detrend ws ! i) = 0
       \<and> (\<Sum>i = 0..<length ws.
             (real i - (\<Sum>k = 0..<length ws. real k) / real (length ws))
             * (detrend ws ! i - (\<Sum>k = 0..<length ws. detrend ws ! k) / real (length ws))) = 0"
proof -
  define n where "n = length ws"
  define y where "y i = ln (ws ! i)" for i
  define W where "W = real n"
  define Sx where "Sx = (\<Sum>i = 0..<n. real i)"
  define Sy where "Sy = (\<Sum>i = 0..<n. y i)"
  define Sxx where "Sxx = (\<Sum>i = 0..<n. real (i * i))"
  define Sxy where "Sxy = (\<Sum>i = 0..<n. real i * y i)"
  define D where "D = W * Sxx - Sx * Sx"
  define slope where "slope = (W * Sxy - Sx * Sy) / D"
  define intercept where "intercept = (Sy - slope * Sx) / W"
  define r where "r i = y i - (intercept + slope * real i)" for i
  have Wpos: "0 < W" using assms(1) by (auto simp: W_def n_def)
  have Dpos: "0 < D" using regression_denominator [of n] assms(1)
    by (simp add: D_def W_def Sxx_def Sx_def n_def)
  have det: "detrend ws = map r [0..<n]"
    by (simp add: detrend_def regression_sums_eq Let_def r_def intercept_def slope_def D_def
        W_def Sx_def Sy_def Sxx_def Sxy_def y_def n_def)
  have nth: "detrend ws ! i = r i" if "i < n" for i
    using that by (simp add: det)
  have len: "length (detrend ws) = length ws" by (simp add: det n_def)
  have "(\<Sum>i = 0..<n. detrend ws ! i) = (\<Sum>i = 0..<n. r i)"
    by (rule sum.cong) (simp_all add: nth)
  also have "\<dots> = Sy - (W * intercept + slope * Sx)"
    by (simp add: r_def sum_subtractf sum.distrib Sy_def Sx_def W_def sum_distrib_left)
  also have "\<dots> = 0"
    using Wpos by (simp add: intercept_def)
  finally have s0: "(\<Sum>i = 0..<n. detrend ws ! i) = 0" .
  have "(\<Sum>i = 0..<n. real i * detrend ws ! i) = (\<Sum>i = 0..<n. real i * r i)"
    by (rule sum.cong) (simp_all add: nth)
  also have "\<dots> = Sxy - (intercept * Sx + slope * Sxx)"
    by (simp add: r_def algebra_simps sum_subtractf sum.distrib Sxy_def Sx_def Sxx_def
        sum_distrib_left)
  also have "\<dots> = ((W * Sxy - Sx * Sy) - slope * D) / W"
    using Wpos by (simp add: intercept_def D_def field_simps)
  also have "\<dots> = 0"
    using Dpos by (simp add: slope_def)
  finally have s1: "(\<Sum>i = 0..<n. real i * detrend ws ! i) = 0" .
  define m where "m = (\<Sum>k = 0..<n. real k) / real n"
  have "(\<Sum>i = 0..<n. (real i - m) * (detrend ws ! i - (\<Sum>k = 0..<n. detrend ws ! k) / real n))
      = (\<Sum>i = 0..<n. (real i - m) * detrend ws ! i)"
    by (simp add: s0)
  also have "\<dots> = (\<Sum>i = 0..<n. real i * detrend ws ! i) - m * (\<Sum>i = 0..<n. detrend ws ! i)"
    by (simp add: left_diff_distrib sum_subtractf sum_distrib_left)
  also have "\<dots> = 0" by (simp add: s0 s1)
  finally show ?thesis
    using len s0 s1 by (simp add: n_def m_def)
qed

section \<open>The frame of the adaptive smoothing\<close>

lemma local_average_eq:
  "local_average spectrum i =
     (\<Sum>j \<leftarrow> [- 5..5]. spectrum ! nat (int i + j) * exp (- (real_of_int j)\<^sup>2 / (2 * 2\<^sup>2)))
     / (\<Sum>j \<leftarrow> [- 5..5]. exp (- (real_of_int j)\<^sup>2 / (2 * 2\<^sup>2)))"
proof -
  have w: "exp (- 0.5 * real_of_int j * real_of_int j / 4.0) = exp (- (real_of_int j)\<^sup>2 / (2 * 2\<^sup>2))"
    for j :: int
    by (simp add: power2_eq_square)
  show ?thesis
    unfolding local_average_def Let_def w fold_two_sums by simp
qed

lemma adaptive_pass_nth:
  assumes "5 \<le> length spectrum"
  shows "\<exists>smoothed. adaptive_pass spectrum = Inr smoothed
          \<and> length smoothed = length spectrum
          \<and> (\<forall>i < length spectrum.
                smoothed ! i =
                  (if 5 \<le> i \<and> i < length spectrum - 5 \<and> spectrum ! i < threshold
                   then local_average spectrum i else spectrum ! i))"
proof -
  let ?r = "fold (\<lambda>i a. if spectrum ! i < threshold then a[i := local_average spectrum i] else a)
              [5..<length spectrum - 5] spectrum"
  have r: "adaptive_pass spectrum = Inr ?r"
    using assms by (simp add: adaptive_pass_def)
  have len: "length ?r = length spectrum"
    by (rule length_fold_update)
  have "?r ! i = (if 5 \<le> i \<and> i < length spectrum - 5 \<and> spectrum ! i < threshold
                  then local_average spectrum i else spectrum ! i)"
    if "i < length spectrum" for i
    using nth_fold_update [OF that, of "\<lambda>i. spectrum ! i < threshold" "local_average spectrum"
        "[5..<length spectrum - 5]"]
    by simp
  with r len show ?thesis by blast
qed

text \<open>
  Claim C9. In a pass of the adaptive smoothing over a spectrum of at least 5 entries,
  every entry among the first 5 or the last 5, and every entry whose value is at least
  0.3, is left as it is; an entry in between with a value below 0.3 becomes the
  average of the entries at distance at most 5 from it, weighted by a Gaussian of
  standard deviation 2.
\<close>

theorem adaptive_pass_frame:
  assumes "5 \<le> length spectrum"
  shows "\<exists>smoothed. adaptive_pass spectrum = Inr smoothed
          \<and> length smoothed = length spectrum
          \<and> (\<forall>i < length spectrum.
                (i < 5 \<or> length spectrum - 5 \<le> i \<or> 0.3 \<le> spectrum ! i
                   \<longrightarrow> smoothed ! i = spectrum ! i)
              \<and> (5 \<le> i \<and> i < length spectrum - 5 \<and> spectrum ! i < 0.3
                   \<longrightarrow> smoothed ! i =
                     (\<Sum>j \<leftarrow> [- 5..5]. spectrum ! nat (int i + j)
                         * exp (- (real_of_int j)\<^sup>2 / (2 * 2\<^sup>2)))
                     / (\<Sum>j \<leftarrow> [- 5..5]. exp (- (real_of_int j)\<^sup>2 / (2 * 2\<^sup>2)))))"
proof -
  from adaptive_pass_nth [OF assms] obtain smoothed where
    r: "adaptive_pass spectrum = Inr smoothed" and len: "length smoothed = length spectrum" and
    nth: "\<And>i. i < length spectrum \<Longrightarrow> smoothed ! i =
            (if 5 \<le> i \<and> i < length spectrum - 5 \<and> spectrum ! i < threshold
             then local_average spectrum i else spectrum ! i)"
    by blast
  have "(i < 5 \<or> length spectrum - 5 \<le> i \<or> 0.3 \<le> spectrum ! i \<longrightarrow> smoothed ! i = spectrum ! i)
      \<and> (5 \<le> i \<and> i < length spectrum - 5 \<and> spectrum ! i < 0.3
            \<longrightarrow> smoothed ! i =
                (\<Sum>j \<leftarrow> [- 5..5]. spectrum ! nat (int i + j)
                    * exp (- (real_of_int j)\<^sup>2 / (2 * 2\<^sup>2)))
                / (\<Sum>j \<leftarrow> [- 5..5]. exp (- (real_of_int j)\<^sup>2 / (2 * 2\<^sup>2))))"
    if "i < length spectrum" for i
    unfolding nth [OF that] local_average_eq [symmetric]
    by (auto simp: threshold_def)
  with r len show ?thesis by blast
qed

theorem adaptive_pass_frame_witness:
  "5 \<le> length (replicate 11 (0::real))
   \<and> (\<exists>smoothed. adaptive_pass (replicate 11 0) = Inr smoothed \<and> length smoothed = 11)"
  using adaptive_pass_frame [of "replicate 11 0"] by fastforce

section \<open>The two median filters\<close>

lemma window_values:
  assumes "i < length s"
  shows "map (\<lambda>j. s ! nat (int i + j))
           (filter (\<lambda>j. 0 \<le> int i + j \<and> int i + j < int (length s)) [- int w..int w])
         = in_bounds_window s i w"
proof -
  let ?n = "length s"
  have f: "filter (\<lambda>j. 0 \<le> int i + j \<and> int i + j < int ?n) [- int w..int w]
         = [max (- int w) (- int i)..min (int w) (int ?n - 1 - int i)]"
  proof -
    have "(\<lambda>j. 0 \<le> int i + j \<and> int i + j < int ?n) = (\<lambda>j. - int i \<le> j \<and> j \<le> int ?n - 1 - int i)"
      by auto
    then show ?thesis by (simp only: filter_upto_range)
  qed
  show ?thesis
    unfolding f in_bounds_window_def
  proof (rule nth_equalityI)
    show "length (map (\<lambda>j. s ! nat (int i + j)) [max (- int w) (- int i)..min (int w) (int ?n - 1 - int i)])
        = length (drop (i - w) (take (i + w + 1) s))"
      using assms by (simp add: min_def max_def) linarith
  next
    fix k
    assume k: "k < length (map (\<lambda>j. s ! nat (int i + j))
                     [max (- int w) (- int i)..min (int w) (int ?n - 1 - int i)])"
    then have "k < nat (min (int w) (int ?n - 1 - int i) - max (- int w) (- int i) + 1)"
      by (simp only: length_map length_upto)
    then have k1: "max (- int w) (- int i) + int k \<le> min (int w) (int ?n - 1 - int i)"
      by linarith
    have idx: "nat (int i + (max (- int w) (- int i) + int k)) = (i - w) + k"
    proof (cases "i \<le> w")
      case True
      then show ?thesis by (simp add: max_def)
    next
      case False
      then have "max (- int w) (- int i) = - int w" "i - w + k = nat (int i - int w + int k)"
        by (simp_all add: max_def)
      then show ?thesis by (simp add: algebra_simps)
    qed
    have "(i - w) + k < i + w + 1" "(i - w) + k < ?n"
      using k1 assms by (auto simp: max_def min_def split: if_splits)
    then show "map (\<lambda>j. s ! nat (int i + j))
                 [max (- int w) (- int i)..min (int w) (int ?n - 1 - int i)] ! k
             = drop (i - w) (take (i + w + 1) s) ! k"
      using k k1 idx by simp
  qed
qed

lemma median_filter_nth:
  assumes "i < length s"
  shows "median_filter s (int w) ! i = upper_median (in_bounds_window s i w)"
proof -
  have "[0..int (length s) - 1] ! i = int i"
    using assms by simp
  moreover have "length (filter (\<lambda>j. 0 \<le> int i + j \<and> int i + j < int (length s)) [- int w..int w])
               = length (in_bounds_window s i w)"
    using arg_cong [OF window_values [OF assms, of w], of length] by simp
  ultimately show ?thesis
    using assms
    by (simp add: median_filter_def Let_def fold_cond_append window_values upper_median_def)
qed

lemma length_median_filter: "length (median_filter s w) = length s"
  by (simp add: median_filter_def Let_def)

lemma interior_values:
  assumes "3 \<le> i" and "i < length s - 3"
  shows "map (\<lambda>j. s ! nat (int i + j)) [- 3..3] = in_bounds_window s i 3"
proof -
  have i: "i < length s" using assms by simp
  have "\<forall>j \<in> set [- int 3..int 3]. 0 \<le> int i + j \<and> int i + j < int (length s)"
    using assms by auto
  then have "filter (\<lambda>j. 0 \<le> int i + j \<and> int i + j < int (length s)) [- int 3..int 3]
           = [- int 3..int 3]"
    by (rule filter_True)
  with window_values [OF i, of 3]
  have "map (\<lambda>j. s ! nat (int i + j)) [- int 3..int 3] = in_bounds_window s i 3"
    by (simp only:)
  then show ?thesis by (simp only: of_nat_numeral)
qed

lemma interior_median_nth:
  assumes "3 \<le> length s"
  shows "\<exists>filtered. interior_median s = Inr filtered \<and> length filtered = length s
           \<and> (\<forall>i < length s.
                  (i < 3 \<or> length s - 3 \<le> i \<longrightarrow> filtered ! i = s ! i)
                \<and> (3 \<le> i \<and> i < length s - 3
                     \<longrightarrow> filtered ! i = upper_median (in_bounds_window s i 3)))"
proof -
  let ?g = "\<lambda>i. sort (map (\<lambda>j. s ! nat (int i + j)) [- 3..3])
                  ! (length (map (\<lambda>j. s ! nat (int i + j)) [- 3..3]) div 2)"
  let ?r = "fold (\<lambda>i a. a[i := ?g i]) [3..<length s - 3] s"
  have r: "interior_median s = Inr ?r"
    using assms by (simp add: interior_median_def Let_def)
  have len: "length ?r = length s"
    by (rule length_fold_update_all)
  have nth: "?r ! i = (if i \<in> set [3..<length s - 3] then ?g i else s ! i)" if "i < length s" for i
    using that by (rule nth_fold_update_all)
  have g: "?g i = upper_median (in_bounds_window s i 3)" if "3 \<le> i" "i < length s - 3" for i
    unfolding interior_values [OF that] upper_median_def ..
  have "(i < 3 \<or> length s - 3 \<le> i \<longrightarrow> ?r ! i = s ! i)
      \<and> (3 \<le> i \<and> i < length s - 3 \<longrightarrow> ?r ! i = upper_median (in_bounds_window s i 3))"
    if "i < length s" for i
    unfolding nth [OF that] using g [of i] by auto
  with r len show ?thesis by blast
qed

text \<open>
  Claim C6, as the code has it. \<^verbatim>\<open>median_filter\<close> of \<^verbatim>\<open>scanner_clean.cpp\<close> and
  \<^verbatim>\<open>simple_heatmap_fixed.cpp\<close> replaces every entry, also near the ends of the spectrum,
  by the upper median of the in-bounds values among the entry and its 3 neighbours on
  each side; neighbours outside the spectrum are left out of the median. The median
  filter of \<^verbatim>\<open>process_spectrum\<close> in \<^verbatim>\<open>generate_weekly_scanners.cpp\<close> does so for the
  entries with 3 neighbours on each side only, and leaves the first 3 and the last 3
  entries as they are.
\<close>

theorem median_filters:
  "length (median_filter s 3) = length s
   \<and> (\<forall>i < length s. median_filter s 3 ! i = upper_median (in_bounds_window s i 3))
   \<and> (3 \<le> length s \<longrightarrow>
        (\<exists>filtered. interior_median s = Inr filtered \<and> length filtered = length s
           \<and> (\<forall>i < length s.
                  (i < 3 \<or> length s - 3 \<le> i \<longrightarrow> filtered ! i = s ! i)
                \<and> (3 \<le> i \<and> i < length s - 3
                     \<longrightarrow> filtered ! i = upper_median (in_bounds_window s i 3)))))"
  using median_filter_nth [of _ s 3] interior_median_nth [of s]
  by (simp add: length_median_filter)

text \<open>
  The median filter of \<^verbatim>\<open>process_spectrum\<close> keeps the 5 at the head of the spectrum
  \<open>5, 1, 1, 1, 1, 1, 1, 1\<close>, while the median of the in-bounds values \<open>5, 1, 1, 1\<close>
  around it is 1.
\<close>

theorem interior_median_keeps_boundary:
  "interior_median [5, 1, 1, 1, 1, 1, 1, 1] = Inr [5, 1, 1, 1, 1, 1, 1, 1]
   \<and> [5, 1, 1, 1, 1, 1, 1, 1 :: real] ! 0 = 5
   \<and> upper_median (in_bounds_window [5, 1, 1, 1, 1, 1, 1, 1] 0 3) = 1"
  by code_simp

theorem median_filters_witness:
  "median_filter [5, 1, 1, 1, 1, 1, 1, 1] 3 ! 0
     = upper_median (in_bounds_window [5, 1, 1, 1, 1, 1, 1, 1] 0 3)
   \<and> (\<exists>filtered. interior_median [5, 1, 1, 1, 1, 1, 1, 1] = Inr filtered
         \<and> filtered ! 0 = 5
         \<and> filtered ! 3 = upper_median (in_bounds_window [5, 1, 1, 1, 1, 1, 1, 1] 3 3))"
  using median_filters [of "[5, 1, 1, 1, 1, 1, 1, 1]"] by fastforce

section \<open>The maximum, and the pipeline on an all-zero spectrum\<close>

lemma fold_cond_two_sums:
  "fold (\<lambda>j (a, b). if C j then (a + f j, b + g j) else (a, b)) xs (a0, b0 :: real) =
     (a0 + sum_list (map (\<lambda>j. if C j then f j else 0) xs),
      b0 + sum_list (map (\<lambda>j. if C j then g j else 0) xs))"
  by (induction xs arbitrary: a0 b0) (simp_all add: add.assoc)

lemma fold_max_mem:
  "fold (\<lambda>s largest. if largest < s then s else largest) xs (x::real) \<in> insert x (set xs)"
  by (induction xs arbitrary: x) (simp, simp, blast)

lemma fold_max_upper:
  "y \<in> insert x (set xs) \<Longrightarrow> y \<le> fold (\<lambda>s largest. if largest < s then s else largest) xs (x::real)"
proof (induction xs arbitrary: x y)
  case Nil
  then show ?case by simp
next
  case (Cons z zs)
  have step: "a \<le> fold (\<lambda>s largest. if largest < s then s else largest) zs a" for a
    using Cons.IH [of a a] by simp
  show ?case
  proof (cases "x < z")
    case True
    with Cons.prems Cons.IH [of y z] step [of z] show ?thesis by auto
  next
    case False
    with Cons.prems Cons.IH [of y x] step [of x] show ?thesis by auto
  qed
qed

lemma max_element_Inr:
  assumes "max_element v = Inr m"
  shows "m \<in> set v \<and> (\<forall>y \<in> set v. y \<le> m)"
proof (cases v)
  case Nil
  with assms show ?thesis by (simp add: max_element_def)
next
  case (Cons x xs)
  with assms have m: "m = fold (\<lambda>s largest. if largest < s then s else largest) xs x"
    by (simp add: max_element_def)
  show ?thesis
    unfolding m Cons using fold_max_mem [of xs x] fold_max_upper [of _ x xs] by auto
qed

lemma max_element_total: "v \<noteq> [] \<Longrightarrow> \<exists>m. max_element v = Inr m"
  by (cases v) (simp_all add: max_element_def)

lemma max_element_unique:
  assumes "m \<in> set v" and "\<forall>y \<in> set v. y \<le> m"
  shows "max_element v = Inr m"
proof -
  from assms(1) have "v \<noteq> []" by auto
  then obtain m' where m': "max_element v = Inr m'" using max_element_total by blast
  from max_element_Inr [OF m'] assms have "m' = m" by (meson order_antisym)
  with m' show ?thesis by simp
qed

lemma max_element_zeros: "max_element (replicate (Suc n) 0) = Inr 0"
  by (rule max_element_unique) auto

lemma normalize_guarded_spec:
  assumes "spectrum \<noteq> []"
  shows "\<exists>max_val r. max_element spectrum = Inr max_val \<and> normalize_guarded spectrum = Inr r
           \<and> (0 < max_val \<longrightarrow> r = map (\<lambda>s. s / max_val) spectrum \<and> max_element r = Inr 1)
           \<and> (max_val \<le> 0 \<longrightarrow> r = spectrum)"
proof -
  from assms obtain m where m: "max_element spectrum = Inr m"
    using max_element_total by blast
  note mm = max_element_Inr [OF m]
  have "max_element (map (\<lambda>s. s / m) spectrum) = Inr 1" if "0 < m"
  proof (rule max_element_unique)
    show "1 \<in> set (map (\<lambda>s. s / m) spectrum)"
      using mm that by (auto simp: image_iff intro!: bexI [of _ m])
    show "\<forall>y \<in> set (map (\<lambda>s. s / m) spectrum). y \<le> 1"
      using mm that by (auto simp: field_simps)
  qed
  then show ?thesis
    using m by (auto simp: normalize_guarded_def)
qed

lemma normalize_unguarded_pos:
  assumes "max_element spectrum = Inr max_val" and "0 < max_val"
  shows "normalize_unguarded spectrum = Inr (map (\<lambda>s. Fin (s / max_val)) spectrum)"
  using assms by (simp add: normalize_unguarded_def fdiv_def)

lemma window_sum_zeros: "window_sum (replicate N 0) wavelet wlen center = 0"
proof -
  have "(if 0 \<le> idx \<and> idx < int N
         then complex_of_real (replicate N 0 ! nat idx) * cnj (wavelet ! nat i) else 0) = 0"
    for idx i :: int
    by (auto simp: nat_less_iff)
  then show ?thesis
    by (simp add: window_sum_def Let_def fold_cond_add)
qed

lemma compute_power_zeros: "compute_power (replicate N 0) P = 0"
  by (simp add: compute_power_def Let_def scan_loop_closed window_sum_zeros)

lemma upper_median_zeros: "0 < k \<Longrightarrow> upper_median (replicate k 0) = 0"
proof -
  assume k: "0 < k"
  have "sort (replicate k (0::real)) = replicate k 0"
    by (rule sort_key_id_if_sorted) simp
  with k show ?thesis
    by (simp add: upper_median_def)
qed

lemma median_filter_zeros: "median_filter (replicate n 0) 3 = replicate n 0"
proof (rule nth_equalityI)
  show "length (median_filter (replicate n 0) 3) = length (replicate n (0::real))"
    by (simp add: length_median_filter)
next
  fix i
  assume "i < length (median_filter (replicate n 0) 3)"
  then have i: "i < n" by (simp add: length_median_filter)
  have w: "in_bounds_window (replicate n 0) i 3 = replicate (min (i + 3 + 1) n - (i - 3)) 0"
    by (simp add: in_bounds_window_def)
  have "0 < min (i + 3 + 1) n - (i - 3)" using i by linarith
  then have "upper_median (in_bounds_window (replicate n 0) i 3) = 0"
    unfolding w by (rule upper_median_zeros)
  with i show "median_filter (replicate n 0) 3 ! i = replicate n 0 ! i"
    using median_filter_nth [of i "replicate n 0" 3] by simp
qed

lemma smooth_spectrum_zeros: "smooth_spectrum (replicate n 0) window = replicate n 0"
proof -
  have z: "(if 0 \<le> idx \<and> idx < int n then replicate n 0 ! nat idx * w else 0) = (0::real)"
    for idx :: int and w
    by (auto simp: nat_less_iff)
  show ?thesis
    unfolding smooth_spectrum_def Let_def
    by (simp add: fold_cond_two_sums z map_replicate_const sum_list_replicate)
qed

lemma fold_add_sum: "fold (\<lambda>s mean. mean + s) xs (a::real) = a + sum_list xs"
  by (induction xs arbitrary: a) simp_all

lemma enhance_peaks_zeros: "enhance_peaks (replicate n 0) factor = replicate n 0"
  by (simp add: enhance_peaks_def Let_def fold_add_sum sum_list_replicate del: fold_replicate)

lemma local_average_zeros:
  assumes "5 \<le> i" and "i + 5 < n"
  shows "local_average (replicate n 0) i = 0"
proof -
  have "replicate n 0 ! nat (int i + j) * exp (- (real_of_int j)\<^sup>2 / (2 * 2\<^sup>2)) = (0::real)"
    if "j \<in> set [- 5..5]" for j
    using that assms by (auto simp: nat_less_iff)
  then have "map (\<lambda>j. replicate n 0 ! nat (int i + j) * exp (- (real_of_int j)\<^sup>2 / (2 * 2\<^sup>2))) [- 5..5]
      = map (\<lambda>j. 0::real) [- 5..5]"
    by (rule map_cong [OF refl])
  then have "(\<Sum>j \<leftarrow> [- 5..5]. replicate n 0 ! nat (int i + j)
                * exp (- (real_of_int j)\<^sup>2 / (2 * 2\<^sup>2))) = (0::real)"
    by (simp only: sum_list_0)
  then show ?thesis
    by (simp only: local_average_eq div_0)
qed

lemma adaptive_pass_zeros:
  assumes "5 \<le> n"
  shows "adaptive_pass (replicate n 0) = Inr (replicate n 0)"
proof -
  from adaptive_pass_nth [of "replicate n 0"] assms
  obtain r where r: "adaptive_pass (replicate n 0) = Inr r" "length r = n"
    and nth: "\<And>i. i < n \<Longrightarrow> r ! i =
       (if 5 \<le> i \<and> i < n - 5 \<and> replicate n 0 ! i < threshold
        then local_average (replicate n 0) i else replicate n 0 ! i)"
    by auto
  have "r = replicate n 0"
  proof (rule nth_equalityI)
    show "length r = length (replicate n (0::real))" using r by simp
  next
    fix i assume "i < length r"
    then have i: "i < n" using r by simp
    show "r ! i = replicate n 0 ! i"
      unfolding nth [OF i] using local_average_zeros [of i n] i by auto
  qed
  with r show ?thesis by simp
qed

lemma adaptive_smoothing_zeros:
  "5 \<le> n \<Longrightarrow> adaptive_smoothing (replicate n 0) = Inr (replicate n 0)"
  by (simp add: adaptive_smoothing_def adaptive_pass_zeros)

lemma nonpeak_nan:
  assumes "10 \<le> n"
  shows "find_peaks wavelengths (replicate n NaN) = Inr []"
proof -
  have "filter (\<lambda>i. is_peak (replicate n NaN) i \<and> dbl_gt (replicate n NaN ! i) (Fin 0.05))
          [10..<n - 10] = []"
    by (auto simp: filter_empty_conv)
  then show ?thesis
    using assms by (simp add: find_peaks_def fold_cond_append)
qed

lemma post_process_zeros:
  assumes "5 \<le> n"
  shows "post_process (replicate n 0) = Inr (replicate n NaN)"
proof -
  obtain k where k: "n = Suc k" using assms by (cases n) auto
  have "normalize_unguarded (replicate n 0) = Inr (replicate n NaN)"
    unfolding k
    by (simp add: normalize_unguarded_def max_element_zeros fdiv_def del: replicate_Suc)
  then show ?thesis
    using assms
    by (simp add: post_process_def median_filter_zeros smooth_spectrum_zeros enhance_peaks_zeros
        adaptive_smoothing_zeros)
qed

lemma post_process_heatmap_zeros:
  assumes "5 \<le> n"
  shows "post_process_heatmap (replicate n 0) = Inr (replicate n 0)"
proof -
  obtain k where k: "n = Suc k" using assms by (cases n) auto
  have "normalize_guarded (replicate n 0) = Inr (replicate n 0)"
    unfolding k by (simp add: normalize_guarded_def max_element_zeros del: replicate_Suc)
  then show ?thesis
    using assms
    by (simp add: post_process_heatmap_def median_filter_zeros smooth_spectrum_zeros
        enhance_peaks_zeros adaptive_smoothing_zeros)
qed

lemma detrend_constant:
  assumes "0 < S"
  shows "detrend (replicate S c) = replicate S 0"
proof -
  define lc where "lc = ln c"
  define Sx where "Sx = (\<Sum>i = 0..<S. real i)"
  define Sxx where "Sxx = (\<Sum>i = 0..<S. real (i * i))"
  have sy: "(\<Sum>i = 0..<S. ln (replicate S c ! i)) = real S * lc"
    by (simp add: lc_def)
  have sxy: "(\<Sum>i = 0..<S. real i * ln (replicate S c ! i)) = Sx * lc"
    by (simp add: lc_def Sx_def sum_distrib_right)
  have rs: "regression_sums (replicate S c) = (Sx, real S * lc, Sxx, Sx * lc)"
    by (simp only: regression_sums_eq length_replicate sy sxy Sx_def Sxx_def)
  have "detrend (replicate S c) = map (\<lambda>i. ln (replicate S c ! i) - lc) [0..<S]"
    using assms by (simp add: detrend_def rs Let_def algebra_simps)
  also have "\<dots> = map (\<lambda>i. 0) [0..<S]"
    by (rule map_cong [OF refl]) (simp add: lc_def)
  finally show ?thesis
    by (simp add: map_replicate_const)
qed

lemma scan_band_zero:
  assumes "\<And>wl. lo \<le> wl \<Longrightarrow> compute_power data wl = 0"
  shows "map (compute_power data) [lo..hi] = replicate (nat (hi - lo + 1)) 0"
proof -
  have "map (compute_power data) [lo..hi] = map (\<lambda>wl. 0) [lo..hi]"
    by (rule map_cong [OF refl]) (simp only: set_upto atLeastAtMost_iff assms)
  then show ?thesis
    by (simp only: map_replicate_const length_upto)
qed

lemma scanner_clean_spectrum_constant:
  assumes "0 < S"
  shows "scanner_clean_spectrum (replicate S c) = replicate 971 0"
proof -
  have "drop (S - min 2000 S) (replicate S c) = replicate (min 2000 S) c"
    by (simp add: min_def)
  moreover have "0 < min 2000 S" using assms by simp
  ultimately have "scanner_clean_spectrum (replicate S c)
                 = map (compute_power (replicate (min 2000 S) 0)) [30..1000]"
    by (simp add: scanner_clean_spectrum_def Let_def detrend_constant del: upto_rec_numeral)
  also have "\<dots> = replicate (nat (1000 - 30 + 1)) 0"
    by (rule scan_band_zero) (rule compute_power_zeros)
  finally show ?thesis by simp
qed

lemma length_detrend: "length (detrend ws) = length ws"
  by (simp add: detrend_def Let_def case_prod_beta)

lemma scanner_clean_spectrum_short:
  assumes "length prices < 60"
  shows "scanner_clean_spectrum prices = replicate 971 0"
proof -
  let ?data = "detrend (drop (length prices - min 2000 (length prices)) prices)"
  have "compute_power ?data wl = 0" if "30 \<le> wl" for wl
  proof -
    have "length ?data < 60" using assms by (simp add: length_detrend)
    then have "int (length ?data) div 2 < wl" using that by linarith
    then show ?thesis by (simp add: compute_power_def Let_def)
  qed
  then have "map (compute_power ?data) [30..1000] = replicate (nat (1000 - 30 + 1)) 0"
    by (rule scan_band_zero)
  then show ?thesis
    by (simp add: scanner_clean_spectrum_def Let_def del: upto_rec_numeral)
qed

section \<open>Normalization of an all-zero spectrum\<close>

text \<open>
  Claim C2 at the input on which \<^verbatim>\<open>scanner_clean.cpp\<close> departs from it. The claim: a
  spectrum whose maximum is not positive is left as it is, all zero, and nothing is
  divided by zero. The guarded normalization of \<^verbatim>\<open>process_spectrum\<close> and of
  \<^verbatim>\<open>simple_heatmap_fixed.cpp\<close> does so (and by \<open>normalize_guarded_spec\<close> divides by a
  positive maximum, after which the maximum is 1). The normalization in \<^verbatim>\<open>main\<close> of
  \<^verbatim>\<open>scanner_clean.cpp\<close> has no guard: it divides the zeros by the zero maximum, and every
  entry becomes a NaN. A price file of 50 prices is such an input: every period from
  30 to 1000 is longer than half the window, \<^verbatim>\<open>compute_power\<close> returns 0 for each, and
  the zeros pass through the filters unchanged.
\<close>

theorem short_file_scanner_clean:
  "normalize_unguarded (replicate (Suc n) 0) = Inr (replicate (Suc n) NaN)
   \<and> normalize_guarded (replicate (Suc n) 0) = Inr (replicate (Suc n) 0)
   \<and> post_process (scanner_clean_spectrum (replicate 50 100)) = Inr (replicate 971 NaN)"
  by (simp add: normalize_unguarded_def normalize_guarded_def max_element_zeros fdiv_def
      scanner_clean_spectrum_short post_process_zeros del: replicate_Suc)

section \<open>A constant window\<close>

text \<open>
  Claim C5 on \<^verbatim>\<open>scanner_clean.cpp\<close>. For a window of constant prices the detrended
  window is all zero, \<^verbatim>\<open>compute_power\<close> returns 0 for every period and the peak list is
  empty, as the claim says; but the post-processed spectrum is not all zero: the
  unguarded normalization has divided zero by zero, and the spectrum is all NaN.
  The guarded post-processor of \<^verbatim>\<open>simple_heatmap_fixed.cpp\<close> leaves the zeros.
  The detrended window of the program is exactly zero where its doubles do not round,
  as for the constant price 1.0 of the witness; for another constant price the first
  conjunct is a statement of exact arithmetic.
\<close>

theorem constant_window_scanner_clean:
  assumes "1 < S" and "0 < c"
  shows "detrend (replicate S c) = replicate S 0
       \<and> (\<forall>P. 1 \<le> P \<longrightarrow> compute_power (replicate S 0) P = 0)
       \<and> post_process (scanner_clean_spectrum (replicate S c)) = Inr (replicate 971 NaN)
       \<and> scanner_clean (replicate S c) = Inr (replicate 971 NaN, [])
       \<and> post_process_heatmap (replicate 701 0) = Inr (replicate 701 0)"
  using assms
  by (simp add: detrend_constant compute_power_zeros scanner_clean_spectrum_constant
      post_process_zeros post_process_heatmap_zeros scanner_clean_def nonpeak_nan
      del: upto_rec_numeral)

theorem constant_window_scanner_clean_witness:
  "(1::nat) < 2000 \<and> (0::real) < 1
   \<and> scanner_clean (replicate 2000 1) = Inr (replicate 971 NaN, [])"
  using constant_window_scanner_clean [of 2000 1] by simp

section \<open>The peak detector\<close>

lemma dbl_ge_iff: "a \<noteq> NaN \<Longrightarrow> b \<noteq> NaN \<Longrightarrow> dbl_ge a b \<longleftrightarrow> \<not> dbl_gt b a"
  by (cases a; cases b) auto

lemma dbl_gt_not_NaN: "dbl_gt p q \<Longrightarrow> p \<noteq> NaN"
  by (cases p) auto

lemma is_peak_iff:
  "is_peak spectrum i \<longleftrightarrow>
     (\<forall>j. - 10 \<le> j \<and> j \<le> 10 \<and> j \<noteq> 0
          \<longrightarrow> \<not> dbl_gt (spectrum ! nat (int i + j)) (spectrum ! i))"
  unfolding is_peak_def list_all_iff set_upto by auto

lemma find_peaks_eq:
  assumes "10 \<le> length spectrum"
  shows "find_peaks wavelengths spectrum =
           Inr (map (\<lambda>i. (wavelengths ! i, spectrum ! i))
                  (filter (\<lambda>i. is_peak spectrum i \<and> dbl_gt (spectrum ! i) (Fin 0.05))
                     [10..<length spectrum - 10]))"
  using assms by (simp add: find_peaks_def fold_cond_append)

lemma find_peaks_Inr:
  assumes "find_peaks wavelengths spectrum = Inr peaks" and "(w, p) \<in> set peaks"
  shows "\<exists>i. 10 \<le> i \<and> i + 10 < length spectrum
           \<and> w = wavelengths ! i \<and> p = spectrum ! i
           \<and> is_peak spectrum i \<and> dbl_gt p (Fin 0.05)"
proof -
  from assms(1) have n: "10 \<le> length spectrum"
    by (auto simp: find_peaks_def split: if_splits)
  from assms find_peaks_eq [OF n, of wavelengths]
  obtain x where x: "10 \<le> x" "x < length spectrum - 10" "is_peak spectrum x"
      "dbl_gt (spectrum ! x) (Fin 0.05)" "w = wavelengths ! x" "p = spectrum ! x"
    by auto
  from x(2) have "x + 10 < length spectrum" by linarith
  with x show ?thesis by blast
qed

text \<open>
  Claim C3. Every peak that the detector returns, with the threshold 0.05, is the
  entry of an index with at least 10 neighbours on each side, its power is greater
  than 0.05, and none of its neighbours at distance at most 10 has a greater power.
\<close>

theorem find_peaks_sound:
  assumes "find_peaks wavelengths spectrum = Inr peaks" and "(w, p) \<in> set peaks"
  shows "\<exists>i. 10 \<le> i \<and> i + 10 < length spectrum
           \<and> w = wavelengths ! i \<and> p = spectrum ! i
           \<and> dbl_gt p (Fin 0.05)
           \<and> (\<forall>j. - 10 \<le> j \<and> j \<le> 10 \<and> j \<noteq> 0
                  \<longrightarrow> \<not> dbl_gt (spectrum ! nat (int i + j)) (spectrum ! i))"
  using find_peaks_Inr [OF assms] unfolding is_peak_iff by blast

lemma one_peak:
  "find_peaks [30..50]
     [Fin 0, Fin 0, Fin 0, Fin 0, Fin 0, Fin 0, Fin 0, Fin 0, Fin 0, Fin 0, Fin 1,
      Fin 0, Fin 0, Fin 0, Fin 0, Fin 0, Fin 0, Fin 0, Fin 0, Fin 0, Fin 0]
   = Inr [(40, Fin 1)]"
  by code_simp

theorem find_peaks_sound_witness:
  "find_peaks [30..50]
     [Fin 0, Fin 0, Fin 0, Fin 0, Fin 0, Fin 0, Fin 0, Fin 0, Fin 0, Fin 0, Fin 1,
      Fin 0, Fin 0, Fin 0, Fin 0, Fin 0, Fin 0, Fin 0, Fin 0, Fin 0, Fin 0]
   = Inr [(40, Fin 1)]
   \<and> (40, Fin 1) \<in> set [(40 :: int, Fin 1)]
   \<and> (\<exists>i. 10 \<le> i \<and> i + 10 < (21 :: nat) \<and> dbl_gt (Fin 1) (Fin 0.05))"
  using find_peaks_sound [OF one_peak, of 40 "Fin 1"] one_peak by auto

section \<open>The sorted peak list\<close>

text \<open>
  Claim C7, as the code has it. The list that \<^verbatim>\<open>std::sort\<close> leaves is a rearrangement of
  the accepted peaks in which the power never increases from an entry to a later one.
  Nothing fixes the order of peaks of equal power: \<^verbatim>\<open>std::sort\<close> is not a stable sort.
\<close>

theorem sorted_peaks_descending:
  assumes "find_peaks wavelengths spectrum = Inr peaks"
    and "std_sort_result peak_before peaks sorted_peaks"
  shows "mset sorted_peaks = mset peaks
       \<and> sorted_wrt (\<lambda>a b. dbl_ge (snd a) (snd b)) sorted_peaks"
proof -
  from assms(2) have m: "mset sorted_peaks = mset peaks"
    and s: "sorted_wrt (\<lambda>a b. \<not> peak_before b a) sorted_peaks"
    by (simp_all add: std_sort_result_def)
  from m have set: "set sorted_peaks = set peaks"
    by (rule mset_eq_setD)
  have nn: "snd a \<noteq> NaN" if "a \<in> set sorted_peaks" for a
  proof -
    from that set have "(fst a, snd a) \<in> set peaks" by simp
    from find_peaks_Inr [OF assms(1) this] show ?thesis
      by (auto dest: dbl_gt_not_NaN)
  qed
  have "sorted_wrt (\<lambda>a b. dbl_ge (snd a) (snd b)) sorted_peaks"
    using s
    by (rule sorted_wrt_mono_rel [rotated]) (simp add: dbl_ge_iff nn peak_before_def)
  with m show ?thesis by simp
qed

text \<open>
  A spectrum of 37 entries, all 1, has the 17 peaks of the periods 40 to 56, all of
  power 1. A rearrangement of them that starts with the period 48 is a result that
  \<^verbatim>\<open>std::sort\<close> may return, and it does not list the equal peaks in scan order.
\<close>

lemma seventeen_peaks:
  "find_peaks [30..66] (replicate 37 (Fin 1)) =
     Inr [(40, Fin 1), (41, Fin 1), (42, Fin 1), (43, Fin 1), (44, Fin 1), (45, Fin 1),
          (46, Fin 1), (47, Fin 1), (48, Fin 1), (49, Fin 1), (50, Fin 1), (51, Fin 1),
          (52, Fin 1), (53, Fin 1), (54, Fin 1), (55, Fin 1), (56, Fin 1)]"
  by code_simp

theorem unstable_sort_of_equal_peaks:
  "find_peaks [30..66] (replicate 37 (Fin 1)) =
     Inr [(40, Fin 1), (41, Fin 1), (42, Fin 1), (43, Fin 1), (44, Fin 1), (45, Fin 1),
          (46, Fin 1), (47, Fin 1), (48, Fin 1), (49, Fin 1), (50, Fin 1), (51, Fin 1),
          (52, Fin 1), (53, Fin 1), (54, Fin 1), (55, Fin 1), (56, Fin 1)]
   \<and> std_sort_result peak_before
        [(40, Fin 1), (41, Fin 1), (42, Fin 1), (43, Fin 1), (44, Fin 1), (45, Fin 1),
         (46, Fin 1), (47, Fin 1), (48, Fin 1), (49, Fin 1), (50, Fin 1), (51, Fin 1),
         (52, Fin 1), (53, Fin 1), (54, Fin 1), (55, Fin 1), (56, Fin 1)]
        [(48, Fin 1), (56, Fin 1), (55, Fin 1), (54, Fin 1), (53, Fin 1), (52, Fin 1),
         (51, Fin 1), (50, Fin 1), (49, Fin 1), (40, Fin 1), (47, Fin 1), (46, Fin 1),
         (45, Fin 1), (44, Fin 1), (43, Fin 1), (42, Fin 1), (41, Fin 1)]
   \<and> \<not> ties_in_scan_order
        [(48, Fin 1), (56, Fin 1), (55, Fin 1), (54, Fin 1), (53, Fin 1), (52, Fin 1),
         (51, Fin 1), (50, Fin 1), (49, Fin 1), (40, Fin 1), (47, Fin 1), (46, Fin 1),
         (45, Fin 1), (44, Fin 1), (43, Fin 1), (42, Fin 1), (41, Fin 1)]"
proof (intro conjI)
  show "find_peaks [30..66] (replicate 37 (Fin 1)) =
     Inr [(40, Fin 1), (41, Fin 1), (42, Fin 1), (43, Fin 1), (44, Fin 1), (45, Fin 1),
          (46, Fin 1), (47, Fin 1), (48, Fin 1), (49, Fin 1), (50, Fin 1), (51, Fin 1),
          (52, Fin 1), (53, Fin 1), (54, Fin 1), (55, Fin 1), (56, Fin 1)]"
    by (rule seventeen_peaks)
  show "std_sort_result peak_before
        [(40, Fin 1), (41, Fin 1), (42, Fin 1), (43, Fin 1), (44, Fin 1), (45, Fin 1),
         (46, Fin 1), (47, Fin 1), (48, Fin 1), (49, Fin 1), (50, Fin 1), (51, Fin 1),
         (52, Fin 1), (53, Fin 1), (54, Fin 1), (55, Fin 1), (56, Fin 1)]
        [(48, Fin 1), (56, Fin 1), (55, Fin 1), (54, Fin 1), (53, Fin 1), (52, Fin 1),
         (51, Fin 1), (50, Fin 1), (49, Fin 1), (40, Fin 1), (47, Fin 1), (46, Fin 1),
         (45, Fin 1), (44, Fin 1), (43, Fin 1), (42, Fin 1), (41, Fin 1)]"
    unfolding std_sort_result_def
    by (simp add: peak_before_def)
  show "\<not> ties_in_scan_order
        [(48, Fin 1), (56, Fin 1), (55, Fin 1), (54, Fin 1), (53, Fin 1), (52, Fin 1),
         (51, Fin 1), (50, Fin 1), (49, Fin 1), (40, Fin 1), (47, Fin 1), (46, Fin 1),
         (45, Fin 1), (44, Fin 1), (43, Fin 1), (42, Fin 1), (41, Fin 1)]"
    by (simp add: ties_in_scan_order_def)
qed

lemma two_peaks:
  "find_peaks [30..61]
     [Fin 0, Fin 0, Fin 0, Fin 0, Fin 0, Fin 0, Fin 0, Fin 0, Fin 0, Fin 0, Fin 0.5,
      Fin 0, Fin 0, Fin 0, Fin 0, Fin 0, Fin 0, Fin 0, Fin 0, Fin 0, Fin 0, Fin 1,
      Fin 0, Fin 0, Fin 0, Fin 0, Fin 0, Fin 0, Fin 0, Fin 0, Fin 0, Fin 0]
   = Inr [(40, Fin 0.5), (51, Fin 1)]"
  by code_simp

theorem sorted_peaks_descending_witness:
  "find_peaks [30..61]
     [Fin 0, Fin 0, Fin 0, Fin 0, Fin 0, Fin 0, Fin 0, Fin 0, Fin 0, Fin 0, Fin 0.5,
      Fin 0, Fin 0, Fin 0, Fin 0, Fin 0, Fin 0, Fin 0, Fin 0, Fin 0, Fin 0, Fin 1,
      Fin 0, Fin 0, Fin 0, Fin 0, Fin 0, Fin 0, Fin 0, Fin 0, Fin 0, Fin 0]
   = Inr [(40, Fin 0.5), (51, Fin 1)]
   \<and> std_sort_result peak_before [(40, Fin 0.5), (51, Fin 1)] [(51, Fin 1), (40, Fin 0.5)]
   \<and> sorted_wrt (\<lambda>a b. dbl_ge (snd a) (snd b)) [(51 :: int, Fin 1), (40, Fin 0.5)]"
proof -
  have s: "std_sort_result peak_before [(40, Fin 0.5), (51, Fin 1)] [(51, Fin 1), (40, Fin 0.5)]"
    by (simp add: std_sort_result_def peak_before_def)
  from sorted_peaks_descending [OF two_peaks s] two_peaks s show ?thesis by simp
qed

section \<open>The offsets of the rolling windows\<close>

lemma fold_cond_skip:
  "fold (\<lambda>j vs. if C j then vs else vs @ [f j]) xs a = a @ map f (filter (\<lambda>j. \<not> C j) xs)"
  by (induction xs arbitrary: a) simp_all

lemma fold_cond_either:
  "fold (\<lambda>j vs. if C j then vs @ [p] else vs @ [f j]) xs a = a @ map (\<lambda>j. if C j then p else f j) xs"
  by (induction xs arbitrary: a) simp_all

lemma weekly_loop_eq:
  "weekly_loop M W prices =
     map (\<lambda>k. analyze_week (window_slice prices (int (length prices) - 5 * k - W) W))
       (filter (\<lambda>k. 0 \<le> int (length prices) - 5 * k - W) [0..M])"
proof -
  have "(\<lambda>k. \<not> int (length prices) - k * 5 - W < 0) = (\<lambda>k. 0 \<le> int (length prices) - 5 * k - W)"
    by (auto simp: algebra_simps)
  then show ?thesis
    unfolding weekly_loop_def Let_def fold_cond_skip
    by (simp add: mult.commute)
qed

lemma heatmap_loop_eq:
  "heatmap_loop M W prices =
     map (\<lambda>k. if 0 \<le> int (length prices) - 5 * k - W
               then analyze_heatmap_week (window_slice prices (int (length prices) - 5 * k - W) W)
               else Inr (replicate 701 0))
       [0..M]"
  unfolding heatmap_loop_def Let_def fold_cond_either
  by (auto simp: mult.commute intro!: map_cong)

lemma length_smooth_spectrum: "length (smooth_spectrum s w) = length s"
  by (simp add: smooth_spectrum_def Let_def)

lemma length_enhance_peaks: "length (enhance_peaks s f) = length s"
  by (simp add: enhance_peaks_def Let_def)

lemma normalize_guarded_length:
  assumes "spectrum \<noteq> []"
  shows "\<exists>r. normalize_guarded spectrum = Inr r \<and> length r = length spectrum"
  using normalize_guarded_spec [OF assms] by (auto split: if_splits)

lemma process_spectrum_length:
  assumes "3 \<le> length spectrum"
  shows "\<exists>r. process_spectrum spectrum = Inr r \<and> length r = length spectrum"
proof -
  from interior_median_nth [OF assms] obtain filtered where
    f: "interior_median spectrum = Inr filtered" "length filtered = length spectrum"
    by blast
  let ?final = "smooth_spectrum (enhance_peaks (smooth_spectrum filtered 10) 2) 5"
  have len: "length ?final = length spectrum"
    by (simp add: length_smooth_spectrum length_enhance_peaks f)
  with assms have "?final \<noteq> []" by auto
  from normalize_guarded_length [OF this] len f show ?thesis
    by (auto simp: process_spectrum_def Let_def)
qed

lemma analyze_week_total: "\<exists>peaks. analyze_week ws = Inr peaks"
proof -
  let ?spectrum = "map (compute_power (detrend ws)) [100..800]"
  have "length ?spectrum = 701" by (simp del: upto_rec_numeral)
  then obtain r where r: "process_spectrum ?spectrum = Inr r" "length r = 701"
    using process_spectrum_length [of ?spectrum] by auto
  then show ?thesis
    by (simp add: analyze_week_def Let_def find_peaks_eq del: upto_rec_numeral)
qed

text \<open>
  Claim C4, as the code has it. For a series of length \<open>S\<close>, a window of \<open>W\<close> prices and
  offsets 0 to \<open>M\<close>, \<^verbatim>\<open>generate_weekly_scanners.cpp\<close> collects one result for each offset
  \<open>k\<close> with \<open>S - 5 k - W \<ge> 0\<close>, in the order of the offsets, each the peak list of
  that window and never an error or a placeholder, and nothing for the other offsets.
  \<^verbatim>\<open>simple_heatmap_fixed.cpp\<close> collects one entry for every offset from 0 to \<open>M\<close>: the
  spectrum of the window when \<open>S - 5 k - W \<ge> 0\<close>, and 701 zeros in its place otherwise.
\<close>

theorem rolling_offsets:
  "weekly_loop M W prices =
     map (\<lambda>k. analyze_week (window_slice prices (int (length prices) - 5 * k - W) W))
       (filter (\<lambda>k. 0 \<le> int (length prices) - 5 * k - W) [0..M])
   \<and> (\<forall>entry. entry \<in> set (weekly_loop M W prices) \<longrightarrow> (\<exists>peaks. entry = Inr peaks))
   \<and> heatmap_loop M W prices =
     map (\<lambda>k. if 0 \<le> int (length prices) - 5 * k - W
               then analyze_heatmap_week (window_slice prices (int (length prices) - 5 * k - W) W)
               else Inr (replicate 701 0))
       [0..M]"
proof (intro conjI)
  show "weekly_loop M W prices =
     map (\<lambda>k. analyze_week (window_slice prices (int (length prices) - 5 * k - W) W))
       (filter (\<lambda>k. 0 \<le> int (length prices) - 5 * k - W) [0..M])"
    by (rule weekly_loop_eq)
  show "\<forall>entry. entry \<in> set (weekly_loop M W prices) \<longrightarrow> (\<exists>peaks. entry = Inr peaks)"
    unfolding weekly_loop_eq using analyze_week_total by auto
  show "heatmap_loop M W prices =
     map (\<lambda>k. if 0 \<le> int (length prices) - 5 * k - W
               then analyze_heatmap_week (window_slice prices (int (length prices) - 5 * k - W) W)
               else Inr (replicate 701 0))
       [0..M]"
    by (rule heatmap_loop_eq)
qed

theorem rolling_offsets_witness:
  "weekly_loop 1 2 [1, 1, 1] = [analyze_week [1, 1]]
   \<and> (\<exists>peaks. analyze_week [1, 1] = Inr peaks)
   \<and> heatmap_loop 1 2 [1, 1, 1] = [analyze_heatmap_week [1, 1], Inr (replicate 701 0)]"
  using rolling_offsets [of 1 2 "[1, 1, 1]"]
  by (simp add: upto.simps window_slice_def)

text \<open>
  On 3999 prices no offset has a full window of 4000: the weekly scanner collects
  nothing, and the heat map collects 261 entries, all of them placeholders.
\<close>

theorem heatmap_placeholders:
  "simple_heatmap_fixed (replicate 3999 1) = replicate 261 (Inr (replicate 701 0))
   \<and> generate_weekly_scanners (replicate 3999 1) = []"
proof
  have "map (\<lambda>k. if 0 \<le> int (length (replicate 3999 (1::real))) - 5 * k - 4000
               then analyze_heatmap_week
                      (window_slice (replicate 3999 1) (int (length (replicate 3999 (1::real))) - 5 * k - 4000) 4000)
               else Inr (replicate 701 0))
          [0..260]
      = map (\<lambda>k. Inr (replicate 701 0)) [0..260]"
    by (rule map_cong [OF refl]) (simp del: upto_rec_numeral)
  then show "simple_heatmap_fixed (replicate 3999 1) = replicate 261 (Inr (replicate 701 0))"
    unfolding simple_heatmap_fixed_def heatmap_loop_eq
    by (simp only: map_replicate_const length_upto) simp
  have "filter (\<lambda>k. 0 \<le> int (length (replicate 3999 (1::real))) - 5 * k - 4000) [0..260] = []"
    by (simp add: filter_empty_conv del: upto_rec_numeral)
  then show "generate_weekly_scanners (replicate 3999 1) = []"
    unfolding generate_weekly_scanners_def weekly_loop_eq by (simp only: list.map)
qed

end
